theory Spec2Isabelle
  imports Main "HOL-Library.Word"
begin

unbundle bit_operations_syntax

section \<open>Machine types and the library primitives the hash calls\<close>

text \<open>
  Go's \<open>byte\<close>, \<open>uint32\<close> and \<open>uint64\<close> are words of the matching width, so \<open>+\<close> wraps
  as in Go.  A \<open>[4]uint64\<close> array is only ever indexed by the constants 0..3 and is a
  quadruple.  A \<open>[32]byte\<close> array and a \<open>[]byte\<close> slice are byte lists; for the arrays the
  length 32 is an invariant (\<open>wf\<close>, \<open>wf_m\<close> below) that every operation preserves.
\<close>

type_synonym byte = "8 word"
type_synonym uint32 = "32 word"
type_synonym uint64 = "64 word"
type_synonym words4 = "uint64 \<times> uint64 \<times> uint64 \<times> uint64"

text \<open>
  \<open>bits.RotateLeft64(x, k)\<close> is \<open>s := uint(k) & 63; return x<<s | x>>(64-s)\<close>.
  The hash only calls it with the constants 14, 23, 16 and 40.
\<close>

definition RotateLeft64 :: "uint64 \<Rightarrow> nat \<Rightarrow> uint64" where
  "RotateLeft64 x k = (let s = k mod 64 in push_bit s x OR drop_bit (64 - s) x)"

text \<open>
  \<open>binary.LittleEndian.Uint64(b)\<close> reads \<open>b[0..7]\<close>, least significant byte first.
  It panics when \<open>len(b) < 8\<close>; every call below passes at least eight bytes.
\<close>

definition Uint64 :: "byte list \<Rightarrow> uint64" where
  "Uint64 b =
     ucast (b ! 0) OR push_bit 8 (ucast (b ! 1)) OR push_bit 16 (ucast (b ! 2)) OR
     push_bit 24 (ucast (b ! 3)) OR push_bit 32 (ucast (b ! 4)) OR push_bit 40 (ucast (b ! 5)) OR
     push_bit 48 (ucast (b ! 6)) OR push_bit 56 (ucast (b ! 7))"

text \<open>The eight bytes \<open>binary.LittleEndian.PutUint64\<close> stores for \<open>v\<close>.\<close>

definition le_bytes :: "uint64 \<Rightarrow> byte list" where
  "le_bytes v =
     [ucast v, ucast (drop_bit 8 v), ucast (drop_bit 16 v), ucast (drop_bit 24 v),
      ucast (drop_bit 32 v), ucast (drop_bit 40 v), ucast (drop_bit 48 v), ucast (drop_bit 56 v)]"

text \<open>\<open>binary.LittleEndian.PutUint64(a[off:], v)\<close> on an array \<open>a\<close> with \<open>off + 8 \<le> len(a)\<close>.\<close>

definition PutUint64 :: "byte list \<Rightarrow> nat \<Rightarrow> uint64 \<Rightarrow> byte list" where
  "PutUint64 a off v = take off a @ le_bytes v @ drop (off + 8) a"

text \<open>
  The builtin \<open>copy(dst[off:], src)\<close> with \<open>off \<le> len(dst)\<close>: it copies
  \<open>min(len(dst) - off, len(src))\<close> bytes and returns that count.
\<close>

definition copy_count :: "byte list \<Rightarrow> nat \<Rightarrow> byte list \<Rightarrow> nat" where
  "copy_count dst off src = min (length dst - off) (length src)"

definition copy :: "byte list \<Rightarrow> nat \<Rightarrow> byte list \<Rightarrow> byte list" where
  "copy dst off src =
     take off dst @ take (copy_count dst off src) src @ drop (off + copy_count dst off src) dst"

text \<open>The four words of a 32-byte block, as every decoding site of the source reads them.\<close>

definition decode4 :: "byte list \<Rightarrow> words4" where
  "decode4 buf = (Uint64 buf, Uint64 (drop 8 buf), Uint64 (drop 16 buf), Uint64 (drop 24 buf))"

text \<open>Four \<open>PutUint64\<close> calls at offsets 0, 8, 16, 24 into the array \<open>a\<close>.\<close>

definition encode4 :: "byte list \<Rightarrow> words4 \<Rightarrow> byte list" where
  "encode4 a w =
     (case w of (w0, w1, w2, w3) \<Rightarrow>
        PutUint64 (PutUint64 (PutUint64 (PutUint64 a 0 w0) 8 w1) 16 w2) 24 w3)"

definition zero32 :: "byte list" where
  "zero32 = replicate 32 0"

section \<open>The one-shot hash: \<open>Pengyhash\<close> (src/pengyhash.go, lines 130-172)\<close>

text \<open>Body of the first loop (lines 135-146): decode a block, eight mixing steps.\<close>

definition Pengyhash_block :: "words4 \<Rightarrow> byte list \<Rightarrow> words4 \<times> words4" where
  "Pengyhash_block s buf =
     (case s of (s0, s1, s2, s3) \<Rightarrow>
      let b0 = Uint64 buf;
          b1 = Uint64 (drop 8 buf);
          b2 = Uint64 (drop 16 buf);
          b3 = Uint64 (drop 24 buf);
          s0 = s0 + (s1 + b3);
          s1 = s0 + RotateLeft64 s1 14;
          s2 = s2 + (s3 + b2);
          s3 = s2 + RotateLeft64 s3 23;
          s0 = s0 + (s3 + b1);
          s3 = s0 XOR RotateLeft64 s3 16;
          s2 = s2 + (s1 + b0);
          s1 = s2 XOR RotateLeft64 s1 40
      in ((b0, b1, b2, b3), (s0, s1, s2, s3)))"

text \<open>The first loop: \<open>for ; len(buf) >= 32; buf = buf[32:]\<close>.\<close>

fun Pengyhash_absorb :: "words4 \<Rightarrow> words4 \<Rightarrow> byte list \<Rightarrow> words4 \<times> words4 \<times> byte list" where
  "Pengyhash_absorb b s buf =
     (if 32 \<le> length buf
      then Pengyhash_absorb (fst (Pengyhash_block s buf)) (snd (Pengyhash_block s buf)) (drop 32 buf)
      else (b, s, buf))"

declare Pengyhash_absorb.simps [simp del]

text \<open>Body of the second loop (lines 161-168): the seed is added in the \<open>s[1]\<close> step.\<close>

definition Pengyhash_round :: "words4 \<Rightarrow> words4 \<Rightarrow> uint32 \<Rightarrow> words4" where
  "Pengyhash_round s b seed =
     (case (s, b) of ((s0, s1, s2, s3), (b0, b1, b2, b3)) \<Rightarrow>
      let s0 = s0 + (s1 + b3);
          s1 = s0 + RotateLeft64 s1 14 + ucast seed;
          s2 = s2 + (s3 + b2);
          s3 = s2 + RotateLeft64 s3 23;
          s0 = s0 + (s3 + b1);
          s3 = s0 XOR RotateLeft64 s3 16;
          s2 = s2 + (s1 + b0);
          s1 = s2 XOR RotateLeft64 s1 40
      in (s0, s1, s2, s3))"

text \<open>The second loop: \<open>for i := 0; i < 6; i++\<close>.\<close>

function Pengyhash_rounds :: "nat \<Rightarrow> words4 \<Rightarrow> words4 \<Rightarrow> uint32 \<Rightarrow> words4" where
  "Pengyhash_rounds i s b seed =
     (if i < 6 then Pengyhash_rounds (i + 1) (Pengyhash_round s b seed) b seed else s)"
  by pat_completeness auto
termination
  by (relation "measure (\<lambda>(i, s, b, seed). 6 - i)") auto

declare Pengyhash_rounds.simps [simp del]

definition Pengyhash :: "byte list \<Rightarrow> uint32 \<Rightarrow> uint64" where
  "Pengyhash buf seed =
     (case Pengyhash_absorb (0, 0, 0, 0) (0, 0, 0, of_nat (length buf)) buf of
        (b, s, rest) \<Rightarrow>
          let tmp = encode4 zero32 b;
              tmp = copy tmp 0 rest;
              b = decode4 tmp
          in (case Pengyhash_rounds 0 s b seed of (s0, s1, s2, s3) \<Rightarrow> s0 + s1 + s2 + s3))"

section \<open>The incremental engine of src/pengyhash.go (lines 18-127)\<close>

text \<open>
  The struct \<open>hash256\<close>: \<open>b\<close> is the block absorbed last, \<open>s\<close> the accumulator, \<open>tmp\<close>
  the pending bytes and \<open>n\<close> how many of them are valid.  \<open>n\<close> is a Go \<open>int\<close> that only
  ever holds values in 0..32, so it is a \<open>nat\<close>.
\<close>

record hash256 =
  h_b :: words4
  h_s :: words4
  h_seed :: uint64
  h_total :: uint64
  h_tmp :: "byte list"
  h_n :: nat

definition New :: "uint64 \<Rightarrow> hash256" where
  "New seed =
     \<lparr>h_b = (0, 0, 0, 0), h_s = (0, 0, 0, seed), h_seed = seed, h_total = 0,
      h_tmp = zero32, h_n = 0\<rparr>"

definition Reset :: "hash256 \<Rightarrow> hash256" where
  "Reset h = h\<lparr>h_b := (0, 0, 0, 0), h_s := (0, 0, 0, h_seed h), h_n := 0, h_total := 0\<rparr>"

definition write32 :: "hash256 \<Rightarrow> byte list \<Rightarrow> hash256" where
  "write32 h buf =
     (case h_s h of (s0, s1, s2, s3) \<Rightarrow>
      let b0 = Uint64 buf;
          b1 = Uint64 (drop 8 buf);
          b2 = Uint64 (drop 16 buf);
          b3 = Uint64 (drop 24 buf);
          s0 = s0 + (s1 + b3);
          s1 = s0 + RotateLeft64 s1 14;
          s2 = s2 + (s3 + b2);
          s3 = s2 + RotateLeft64 s3 23;
          s0 = s0 + (s3 + b1);
          s3 = s0 XOR RotateLeft64 s3 16;
          s2 = s2 + (s1 + b0);
          s1 = s2 XOR RotateLeft64 s1 40
      in h\<lparr>h_b := (b0, b1, b2, b3), h_s := (s0, s1, s2, s3)\<rparr>)"

text \<open>
  \<open>Write\<close>, lines 76-84: the \<open>if h.n != 0\<close> block.  It returns the engine and what is left
  of \<open>buf\<close>.  The slice \<open>h.tmp[h.n:]\<close> needs \<open>h.n \<le> 32\<close>, which \<open>wf\<close> below guarantees.
\<close>

definition Write_fill :: "hash256 \<Rightarrow> byte list \<Rightarrow> hash256 \<times> byte list" where
  "Write_fill h buf =
     (if h_n h \<noteq> 0
      then let k = copy_count (h_tmp h) (h_n h) buf;
               h = h\<lparr>h_tmp := copy (h_tmp h) (h_n h) buf\<rparr>;
               h = h\<lparr>h_n := h_n h + k\<rparr>;
               buf = drop k buf
           in if h_n h = 32 then ((write32 h (h_tmp h))\<lparr>h_n := 0\<rparr>, buf) else (h, buf)
      else (h, buf))"

text \<open>\<open>Write\<close>, lines 86-88: \<open>for ; len(buf) >= 32; buf = buf[32:] { h.write32(buf) }\<close>.\<close>

fun Write_loop :: "hash256 \<Rightarrow> byte list \<Rightarrow> hash256 \<times> byte list" where
  "Write_loop h buf =
     (if 32 \<le> length buf then Write_loop (write32 h buf) (drop 32 buf) else (h, buf))"

declare Write_loop.simps [simp del]

text \<open>
  \<open>Write\<close> as a whole; the model returns the engine after the call.  The Go function
  also returns \<open>(len(buf), nil)\<close>.
\<close>

definition Write :: "hash256 \<Rightarrow> byte list \<Rightarrow> hash256" where
  "Write h buf =
     (let h = h\<lparr>h_total := h_total h + of_nat (length buf)\<rparr>;
          (h, buf) = Write_fill h buf;
          (h, buf) = Write_loop h buf
      in h\<lparr>h_tmp := copy (h_tmp h) 0 buf, h_n := copy_count (h_tmp h) 0 buf\<rparr>)"

text \<open>Body of the loop of \<open>Sum\<close> (lines 111-118): \<open>h.total\<close> is added in the \<open>s[1]\<close> step.\<close>

definition Sum_round :: "words4 \<Rightarrow> words4 \<Rightarrow> uint64 \<Rightarrow> words4" where
  "Sum_round s b tot =
     (case (s, b) of ((s0, s1, s2, s3), (b0, b1, b2, b3)) \<Rightarrow>
      let s0 = s0 + (s1 + b3);
          s1 = s0 + RotateLeft64 s1 14 + tot;
          s2 = s2 + (s3 + b2);
          s3 = s2 + RotateLeft64 s3 23;
          s0 = s0 + (s3 + b1);
          s3 = s0 XOR RotateLeft64 s3 16;
          s2 = s2 + (s1 + b0);
          s1 = s2 XOR RotateLeft64 s1 40
      in (s0, s1, s2, s3))"

function Sum_rounds :: "nat \<Rightarrow> words4 \<Rightarrow> words4 \<Rightarrow> uint64 \<Rightarrow> words4" where
  "Sum_rounds i s b tot =
     (if i < 6 then Sum_rounds (i + 1) (Sum_round s b tot) b tot else s)"
  by pat_completeness auto
termination
  by (relation "measure (\<lambda>(i, s, b, tot). 6 - i)") auto

declare Sum_rounds.simps [simp del]

text \<open>
  \<open>Sum\<close> has a pointer receiver, so the model passes the engine through and returns it
  with the output slice.  The body assigns only to locals.
\<close>

definition Sum :: "hash256 \<Rightarrow> byte list \<Rightarrow> hash256 \<times> byte list" where
  "Sum h p =
     (let tmp = encode4 zero32 (h_b h);
          tmp = copy tmp 0 (take (h_n h) (h_tmp h));
          b = decode4 tmp;
          s = Sum_rounds 0 (h_s h) b (h_total h);
          r = encode4 zero32 s
      in (h, p @ r))"

text \<open>The invariant of the struct: the array has 32 bytes and fewer than 32 are pending.\<close>

definition wf :: "hash256 \<Rightarrow> bool" where
  "wf h \<longleftrightarrow> length (h_tmp h) = 32 \<and> h_n h < 32"

section \<open>The incremental engine of src/README.md (lines 33-167)\<close>

text \<open>
  The second revision of the engine, the one that can marshal its state.  Its struct keeps
  one array \<open>block\<close> for both the pending bytes and the byte image of the block absorbed
  last.  Its names carry the suffix \<open>_m\<close>.
\<close>

record hash256_m =
  m_block :: "byte list"
  m_s :: words4
  m_seed :: uint64
  m_total :: uint64
  m_n :: nat

definition New_m :: "uint64 \<Rightarrow> hash256_m" where
  "New_m seed =
     \<lparr>m_block = zero32, m_s = (0, 0, 0, seed), m_seed = seed, m_total = 0, m_n = 0\<rparr>"

text \<open>\<open>*h = hash256{}\<close> stores the zero value in every field; then \<open>h.s[3] = h.seed\<close>.\<close>

definition Reset_m :: "hash256_m \<Rightarrow> hash256_m" where
  "Reset_m h =
     (let h = \<lparr>m_block = zero32, m_s = (0, 0, 0, 0), m_seed = 0, m_total = 0, m_n = 0\<rparr>
      in (case m_s h of (s0, s1, s2, s3) \<Rightarrow> h\<lparr>m_s := (s0, s1, s2, m_seed h)\<rparr>))"

definition write32_m :: "hash256_m \<Rightarrow> byte list \<Rightarrow> hash256_m" where
  "write32_m h buf =
     (case m_s h of (s0, s1, s2, s3) \<Rightarrow>
      let b0 = Uint64 buf;
          b1 = Uint64 (drop 8 buf);
          b2 = Uint64 (drop 16 buf);
          b3 = Uint64 (drop 24 buf);
          s0 = s0 + (s1 + b3);
          s1 = s0 + RotateLeft64 s1 14;
          s2 = s2 + (s3 + b2);
          s3 = s2 + RotateLeft64 s3 23;
          s0 = s0 + (s3 + b1);
          s3 = s0 XOR RotateLeft64 s3 16;
          s2 = s2 + (s1 + b0);
          s1 = s2 XOR RotateLeft64 s1 40
      in h\<lparr>m_s := (s0, s1, s2, s3)\<rparr>)"

definition Write_fill_m :: "hash256_m \<Rightarrow> byte list \<Rightarrow> hash256_m \<times> byte list" where
  "Write_fill_m h buf =
     (if m_n h \<noteq> 0
      then let k = copy_count (m_block h) (m_n h) buf;
               h = h\<lparr>m_block := copy (m_block h) (m_n h) buf\<rparr>;
               h = h\<lparr>m_n := m_n h + k\<rparr>;
               buf = drop k buf
           in if m_n h = 32 then ((write32_m h (m_block h))\<lparr>m_n := 0\<rparr>, buf) else (h, buf)
      else (h, buf))"

text \<open>Body of the loop, lines 97-100: the last whole block is also kept in \<open>block\<close>.\<close>

definition Write_body_m :: "hash256_m \<Rightarrow> byte list \<Rightarrow> hash256_m" where
  "Write_body_m h buf =
     (let h = write32_m h buf
      in if length buf < 64 then h\<lparr>m_block := copy (m_block h) 0 buf\<rparr> else h)"

fun Write_loop_m :: "hash256_m \<Rightarrow> byte list \<Rightarrow> hash256_m \<times> byte list" where
  "Write_loop_m h buf =
     (if 32 \<le> length buf then Write_loop_m (Write_body_m h buf) (drop 32 buf) else (h, buf))"

declare Write_loop_m.simps [simp del]

definition Write_m :: "hash256_m \<Rightarrow> byte list \<Rightarrow> hash256_m" where
  "Write_m h buf =
     (let h = h\<lparr>m_total := m_total h + of_nat (length buf)\<rparr>;
          (h, buf) = Write_fill_m h buf;
          (h, buf) = Write_loop_m h buf
      in h\<lparr>m_block := copy (m_block h) 0 buf, m_n := copy_count (m_block h) 0 buf\<rparr>)"

definition Sum_m :: "hash256_m \<Rightarrow> byte list \<Rightarrow> hash256_m \<times> byte list" where
  "Sum_m h p =
     (let b = decode4 (m_block h);
          s = Sum_rounds 0 (m_s h) b (m_total h);
          r = encode4 zero32 s
      in (h, p @ r))"

text \<open>
  \<open>MarshalBinary\<close> fills a fresh 81-byte array; the Go function returns it with a \<open>nil\<close>
  error.  \<open>byte(h.n)\<close> keeps the low eight bits of \<open>n\<close>.
\<close>

definition MarshalBinary :: "hash256_m \<Rightarrow> byte list" where
  "MarshalBinary h =
     (case m_s h of (s0, s1, s2, s3) \<Rightarrow>
      let buf = replicate (32 + 32 + 8 + 8 + 1) 0;
          buf = copy buf 0 (m_block h);
          buf = PutUint64 buf 32 s0;
          buf = PutUint64 buf 40 s1;
          buf = PutUint64 buf 48 s2;
          buf = PutUint64 buf 56 s3;
          buf = PutUint64 buf 64 (m_seed h);
          buf = PutUint64 buf 72 (m_total h)
      in buf[80 := of_nat (m_n h)])"

text \<open>
  \<open>UnmarshalBinary\<close> returns the engine after the call and the error (\<open>None\<close> for
  \<open>nil\<close>, otherwise the text given to \<open>errors.New\<close>).
\<close>

definition UnmarshalBinary :: "hash256_m \<Rightarrow> byte list \<Rightarrow> hash256_m \<times> string option" where
  "UnmarshalBinary h data =
     (if length data < 32 + 32 + 8 + 8 + 1 then (h, Some ''invalid length'')
      else if 32 \<le> data ! 80 then (h, Some ''invalid data'')
      else
        let h = h\<lparr>m_block := copy (m_block h) 0 data\<rparr>;
            h = h\<lparr>m_s := (Uint64 (drop 32 data), Uint64 (drop 40 data),
                         Uint64 (drop 48 data), Uint64 (drop 56 data))\<rparr>;
            h = h\<lparr>m_seed := Uint64 (drop 64 data)\<rparr>;
            h = h\<lparr>m_total := Uint64 (drop 72 data)\<rparr>;
            h = h\<lparr>m_n := unat (data ! 80)\<rparr>
        in (h, None))"

definition wf_m :: "hash256_m \<Rightarrow> bool" where
  "wf_m h \<longleftrightarrow> length (m_block h) = 32 \<and> m_n h < 32"

section \<open>The algorithm as the specification words it\<close>

text \<open>
  These definitions follow the words of the specification, not the source; the theorems
  below compare the source with them.  \<open>mix_spec\<close> is the update sequence of the mixing
  core with the term \<open>extra64\<close> as a parameter (0 when a data block is absorbed), written
  with the rotation \<open>word_rotl\<close> of the word library.
\<close>

definition mix_spec :: "uint64 \<Rightarrow> words4 \<Rightarrow> words4 \<Rightarrow> words4" where
  "mix_spec extra B S =
     (case (S, B) of ((S0, S1, S2, S3), (B0, B1, B2, B3)) \<Rightarrow>
      let S0 = S0 + S1 + B3;
          S1 = S0 + word_rotl 14 S1 + extra;
          S2 = S2 + S3 + B2;
          S3 = S2 + word_rotl 23 S3;
          S0 = S0 + S3 + B1;
          S3 = S0 XOR word_rotl 16 S3;
          S2 = S2 + S1 + B0;
          S1 = S2 XOR word_rotl 40 S1
      in (S0, S1, S2, S3))"

definition finalize_spec :: "uint64 \<Rightarrow> words4 \<Rightarrow> words4 \<Rightarrow> words4" where
  "finalize_spec extra B S = (mix_spec extra B ^^ 6) S"

text \<open>The result of the one-shot engine: the wrapping sum of the four words.\<close>

definition sum4_spec :: "words4 \<Rightarrow> uint64" where
  "sum4_spec S = (case S of (S0, S1, S2, S3) \<Rightarrow> S0 + S1 + S2 + S3)"

text \<open>
  Little-endian bytes in the words of the specification, by arithmetic on the value and
  independent of the shifts and masks of the source: the value of a byte string is the
  sum of its bytes weighted by powers of 256, lowest first; a block decodes to the four
  words whose values are those of its bytes 0-7, 8-15, 16-23 and 24-31; and byte \<open>i\<close> of
  the image of a word is its value divided by \<open>256 ^ i\<close>, modulo 256.
\<close>

fun le_value_spec :: "byte list \<Rightarrow> nat" where
  "le_value_spec [] = 0"
| "le_value_spec (b # bs) = unat b + 256 * le_value_spec bs"

definition word_at_spec :: "byte list \<Rightarrow> nat \<Rightarrow> uint64" where
  "word_at_spec blk j = of_nat (le_value_spec (take 8 (drop (8 * j) blk)))"

definition words_spec :: "byte list \<Rightarrow> words4" where
  "words_spec blk = (word_at_spec blk 0, word_at_spec blk 1, word_at_spec blk 2, word_at_spec blk 3)"

definition le_image_spec :: "uint64 \<Rightarrow> byte list" where
  "le_image_spec w = map (\<lambda>i. of_nat (unat w div 256 ^ i)) [0..<8]"

definition image_spec :: "words4 \<Rightarrow> byte list" where
  "image_spec W =
     (case W of (w0, w1, w2, w3) \<Rightarrow>
        le_image_spec w0 @ le_image_spec w1 @ le_image_spec w2 @ le_image_spec w3)"

text \<open>
  The one-shot engine in the words of the specification: the complete, non-overlapping
  32-byte blocks are absorbed in order; the virtual final block is the byte image of the
  last of them (of four zero words when there is none) with its first \<open>r\<close> bytes
  replaced by the trailing \<open>r = len mod 32\<close> bytes of the buffer.
\<close>

definition blocks_spec :: "byte list \<Rightarrow> byte list list" where
  "blocks_spec buf = map (\<lambda>i. take 32 (drop (32 * i) buf)) [0..<length buf div 32]"

definition Pengyhash_spec :: "byte list \<Rightarrow> uint32 \<Rightarrow> uint64" where
  "Pengyhash_spec buf seed =
     (let r = length buf mod 32;
          blocks = blocks_spec buf;
          S = foldl (\<lambda>S blk. mix_spec 0 (words_spec blk) S) (0, 0, 0, of_nat (length buf)) blocks;
          cache = (if blocks = [] then (0, 0, 0, 0) else words_spec (last blocks));
          image = image_spec cache;
          virtual = drop (length buf - r) buf @ drop r image
      in sum4_spec (finalize_spec (ucast seed) (words_spec virtual) S))"

section \<open>Facts about the primitives\<close>

lemma length_le_bytes [simp]: "length (le_bytes v) = 8"
  by (simp add: le_bytes_def)

lemma length_PutUint64 [simp]: "off + 8 \<le> length a \<Longrightarrow> length (PutUint64 a off v) = length a"
  by (simp add: PutUint64_def)

lemma length_copy [simp]: "off \<le> length dst \<Longrightarrow> length (copy dst off src) = length dst"
  by (auto simp: copy_def copy_count_def min_def)

lemma length_zero32 [simp]: "length zero32 = 32"
  by (simp add: zero32_def)

lemma zero32_list:
  "zero32 = [0,0,0,0,0,0,0,0, 0,0,0,0,0,0,0,0, 0,0,0,0,0,0,0,0, 0,0,0,0,0,0,0,0]"
  by (simp add: zero32_def numeral_eq_Suc)

lemma encode4_32:
  "length a = 32 \<Longrightarrow>
   encode4 a (w0, w1, w2, w3) = le_bytes w0 @ le_bytes w1 @ le_bytes w2 @ le_bytes w3"
  by (simp add: encode4_def PutUint64_def)

lemma length_encode4 [simp]: "length (encode4 zero32 w) = 32"
  by (cases w) (simp add: encode4_32)

lemma bit_byte_at:
  "bit (push_bit k (ucast (ucast (drop_bit k (v::uint64)) :: byte) :: uint64)) n \<longleftrightarrow>
     k \<le> n \<and> n < k + 8 \<and> n < 64 \<and> bit v n"
  by (auto simp: bit_simps)

lemma Uint64_le_bytes [simp]: "Uint64 (le_bytes v @ xs) = v"
proof (rule bit_word_eqI)
  fix n :: nat
  assume "n < LENGTH(64)"
  then have n: "n < 64" by simp
  have b0: "bit (ucast (ucast v :: byte) :: uint64) n \<longleftrightarrow> n < 8 \<and> bit v n"
    using bit_byte_at [of 0 v n] n by simp
  show "bit (Uint64 (le_bytes v @ xs)) n \<longleftrightarrow> bit v n"
    using n by (simp add: Uint64_def le_bytes_def bit_or_iff bit_byte_at b0) arith
qed

lemma decode4_encode4 [simp]: "decode4 (encode4 zero32 w) = w"
proof (cases w)
  case (fields w0 w1 w2 w3)
  have "decode4 (le_bytes w0 @ le_bytes w1 @ le_bytes w2 @ le_bytes w3) = (w0, w1, w2, w3)"
    using Uint64_le_bytes [of w3 "[]"] by (simp add: decode4_def)
  then show ?thesis by (simp add: fields encode4_32)
qed


section \<open>Facts about the iterations\<close>

lemma Sum_rounds_funpow:
  "Sum_rounds i s b tot = ((\<lambda>s. Sum_round s b tot) ^^ (6 - i)) s"
proof (induction i s b tot rule: Sum_rounds.induct)
  case (1 i s b tot)
  let ?f = "\<lambda>s. Sum_round s b tot"
  show ?case
  proof (cases "i < 6")
    case True
    have "Sum_rounds i s b tot = Sum_rounds (i + 1) (?f s) b tot"
      using True by (subst Sum_rounds.simps) simp
    also have "\<dots> = (?f ^^ (6 - (i + 1))) (?f s)"
      using 1 True by simp
    also have "\<dots> = (?f ^^ Suc (6 - (i + 1))) s"
      by (simp only: funpow_Suc_right o_apply)
    also have "Suc (6 - (i + 1)) = 6 - i"
      using True by simp
    finally show ?thesis .
  next
    case False
    then show ?thesis by (simp add: Sum_rounds.simps [of i])
  qed
qed

lemma Sum_rounds_six:
  "Sum_rounds 0 s b t =
     Sum_round (Sum_round (Sum_round (Sum_round (Sum_round (Sum_round s b t) b t) b t) b t) b t) b t"
  by (simp add: Sum_rounds_funpow numeral_eq_Suc)

lemma Pengyhash_round_eq_Sum_round: "Pengyhash_round s b seed = Sum_round s b (ucast seed)"
  by (simp add: Pengyhash_round_def Sum_round_def)

lemma Pengyhash_rounds_eq_Sum_rounds:
  "Pengyhash_rounds i s b seed = Sum_rounds i s b (ucast seed)"
proof (induction i s b seed rule: Pengyhash_rounds.induct)
  case (1 i s b seed)
  then show ?case
    by (subst Pengyhash_rounds.simps, subst Sum_rounds.simps)
       (simp add: Pengyhash_round_eq_Sum_round)
qed

lemma Pengyhash_absorb_short: "length buf < 32 \<Longrightarrow> Pengyhash_absorb b s buf = (b, s, buf)"
  by (simp add: Pengyhash_absorb.simps)

lemma Pengyhash_absorb_long:
  "32 \<le> length buf \<Longrightarrow>
   Pengyhash_absorb b s buf =
     Pengyhash_absorb (fst (Pengyhash_block s buf)) (snd (Pengyhash_block s buf)) (drop 32 buf)"
  by (subst Pengyhash_absorb.simps) simp

lemma Write_loop_short: "length buf < 32 \<Longrightarrow> Write_loop h buf = (h, buf)"
  by (simp add: Write_loop.simps)

lemma Write_loop_long:
  "32 \<le> length buf \<Longrightarrow> Write_loop h buf = Write_loop (write32 h buf) (drop 32 buf)"
  by (subst Write_loop.simps) simp

lemma Write_loop_m_short: "length buf < 32 \<Longrightarrow> Write_loop_m h buf = (h, buf)"
  by (simp add: Write_loop_m.simps)

lemma Write_loop_m_long:
  "32 \<le> length buf \<Longrightarrow> Write_loop_m h buf = Write_loop_m (Write_body_m h buf) (drop 32 buf)"
  by (subst Write_loop_m.simps) simp

section \<open>Known vectors\<close>

lemma rounds_39:
  "Sum_rounds 0 (327155751, 39, 39, 21440806453287) (0, 0, 0, 0) 39 =
     (7796917330352165889, 5465077049605384754, 10098806202031478480, 12735964641133126655)"
  by (simp add: Sum_rounds_six Sum_round_def RotateLeft64_def
      cong: let_weak_cong prod.case_cong_weak)

lemma block_39:
  "Pengyhash_block (0, 0, 0, 39) (replicate 39 0) =
     ((0, 0, 0, 0), (327155751, 39, 39, 21440806453287))"
  by (simp add: Pengyhash_block_def Uint64_def RotateLeft64_def
      cong: let_weak_cong prod.case_cong_weak)

lemma absorb_39:
  "Pengyhash_absorb (0, 0, 0, 0) (0, 0, 0, 39) (replicate 39 0) =
     ((0, 0, 0, 0), (327155751, 39, 39, 21440806453287), replicate 7 0)"
  by (simp add: Pengyhash_absorb_long Pengyhash_absorb_short block_39)

lemma Write_39:
  "Write (New 39) (replicate 39 0) =
     \<lparr>h_b = (0, 0, 0, 0), h_s = (327155751, 39, 39, 21440806453287), h_seed = 39,
      h_total = 39, h_tmp = zero32, h_n = 7\<rparr>"
  by (simp add: Write_def Write_fill_def New_def Write_loop_long Write_loop_short write32_def
      Uint64_def RotateLeft64_def copy_def copy_count_def zero32_def
      flip: replicate_add cong: let_weak_cong prod.case_cong_weak)

lemma Write_m_39:
  "Write_m (New_m 39) (replicate 39 0) =
     \<lparr>m_block = zero32, m_s = (327155751, 39, 39, 21440806453287), m_seed = 39,
      m_total = 39, m_n = 7\<rparr>"
  by (simp add: Write_m_def Write_fill_m_def New_m_def Write_loop_m_long Write_loop_m_short
      Write_body_m_def write32_m_def
      Uint64_def RotateLeft64_def copy_def copy_count_def zero32_def
      flip: replicate_add cong: let_weak_cong prod.case_cong_weak)

lemma virtual_39:
  "decode4 (copy (encode4 zero32 (0, 0, 0, 0)) 0 (replicate 7 0)) = (0, 0, 0, 0)"
proof -
  have "replicate 7 (0::byte) = [0, 0, 0, 0, 0, 0, 0]"
    by (simp add: numeral_eq_Suc)
  then show ?thesis
    by (simp add: encode4_32 le_bytes_def copy_def copy_count_def decode4_def Uint64_def)
qed

lemma digest_39:
  "encode4 zero32
     (7796917330352165889, 5465077049605384754, 10098806202031478480, 12735964641133126655) =
   [0x01, 0x54, 0xba, 0x8a, 0x00, 0x37, 0x34, 0x6c, 0x32, 0x6a, 0xde, 0x13, 0x9f, 0xda, 0xd7, 0x4b,
    0xd0, 0x16, 0x99, 0x27, 0xbc, 0x2a, 0x26, 0x8c, 0xff, 0xe3, 0xac, 0xf2, 0x5c, 0x3c, 0xbf, 0xb0]"
  by (simp add: encode4_32 le_bytes_def)


text \<open>
  Claim C3.  The one-shot hash of 39 zero bytes with seed 39 is \<open>0xf4f178b8b8deb902\<close>, and
  an engine built with seed 39 that is given the same 39 bytes in one \<open>Write\<close> returns the
  32 bytes \<open>01 54 ba 8a ... 3c bf b0\<close> from \<open>Sum\<close>.  This holds for the engine of
  src/pengyhash.go and for the one of src/README.md.
\<close>

theorem known_vectors:
  "Pengyhash (replicate 39 0) 39 = 0xf4f178b8b8deb902 \<and>
   snd (Sum (Write (New 39) (replicate 39 0)) []) =
     [0x01, 0x54, 0xba, 0x8a, 0x00, 0x37, 0x34, 0x6c, 0x32, 0x6a, 0xde, 0x13, 0x9f, 0xda, 0xd7, 0x4b,
      0xd0, 0x16, 0x99, 0x27, 0xbc, 0x2a, 0x26, 0x8c, 0xff, 0xe3, 0xac, 0xf2, 0x5c, 0x3c, 0xbf, 0xb0] \<and>
   snd (Sum_m (Write_m (New_m 39) (replicate 39 0)) []) =
     [0x01, 0x54, 0xba, 0x8a, 0x00, 0x37, 0x34, 0x6c, 0x32, 0x6a, 0xde, 0x13, 0x9f, 0xda, 0xd7, 0x4b,
      0xd0, 0x16, 0x99, 0x27, 0xbc, 0x2a, 0x26, 0x8c, 0xff, 0xe3, 0xac, 0xf2, 0x5c, 0x3c, 0xbf, 0xb0]"
proof (intro conjI)
  show "Pengyhash (replicate 39 0) 39 = 0xf4f178b8b8deb902"
    by (simp add: Pengyhash_def absorb_39 virtual_39 Pengyhash_rounds_eq_Sum_rounds rounds_39)
next
  have "take 7 zero32 = replicate 7 (0::byte)"
    by (simp add: zero32_def)
  then show "snd (Sum (Write (New 39) (replicate 39 0)) []) =
     [0x01, 0x54, 0xba, 0x8a, 0x00, 0x37, 0x34, 0x6c, 0x32, 0x6a, 0xde, 0x13, 0x9f, 0xda, 0xd7, 0x4b,
      0xd0, 0x16, 0x99, 0x27, 0xbc, 0x2a, 0x26, 0x8c, 0xff, 0xe3, 0xac, 0xf2, 0x5c, 0x3c, 0xbf, 0xb0]"
    by (simp add: Sum_def Write_39 virtual_39 rounds_39 digest_39)
next
  have "decode4 zero32 = (0, 0, 0, 0)"
    by (simp add: decode4_def Uint64_def zero32_def)
  then show "snd (Sum_m (Write_m (New_m 39) (replicate 39 0)) []) =
     [0x01, 0x54, 0xba, 0x8a, 0x00, 0x37, 0x34, 0x6c, 0x32, 0x6a, 0xde, 0x13, 0x9f, 0xda, 0xd7, 0x4b,
      0xd0, 0x16, 0x99, 0x27, 0xbc, 0x2a, 0x26, 0x8c, 0xff, 0xe3, 0xac, 0xf2, 0x5c, 0x3c, 0xbf, 0xb0]"
    by (simp add: Sum_m_def Write_m_39 rounds_39 digest_39)
qed

section \<open>\<open>Sum\<close> and \<open>UnmarshalBinary\<close>: frame properties and errors\<close>

lemma Sum_out: "snd (Sum h p) = p @ encode4 zero32 (Sum_rounds 0 (h_s h)
     (decode4 (copy (encode4 zero32 (h_b h)) 0 (take (h_n h) (h_tmp h)))) (h_total h))"
  by (simp add: Sum_def Let_def)

lemma Sum_m_out:
  "snd (Sum_m h p) = p @ encode4 zero32 (Sum_rounds 0 (m_s h) (decode4 (m_block h)) (m_total h))"
  by (simp add: Sum_m_def Let_def)

lemma Sum_state [simp]: "fst (Sum h p) = h"
  by (simp add: Sum_def Let_def)

lemma Sum_m_state [simp]: "fst (Sum_m h p) = h"
  by (simp add: Sum_m_def Let_def)

text \<open>
  Claim C10.  For every slice \<open>p\<close> and every engine, \<open>Sum(p)\<close> returns \<open>p\<close> unchanged
  followed by exactly 32 digest bytes: the result has length \<open>len(p) + 32\<close>, and the digest
  bytes are those of \<open>Sum(nil)\<close>, so they do not depend on \<open>p\<close>.
\<close>

theorem Sum_appends_digest:
  "snd (Sum h p) = p @ snd (Sum h []) \<and> length (snd (Sum h [])) = 32 \<and>
   take (length p) (snd (Sum h p)) = p \<and> length (snd (Sum h p)) = length p + 32 \<and>
   snd (Sum_m g p) = p @ snd (Sum_m g []) \<and> length (snd (Sum_m g [])) = 32 \<and>
   take (length p) (snd (Sum_m g p)) = p \<and> length (snd (Sum_m g p)) = length p + 32"
  by (simp add: Sum_out Sum_m_out)

text \<open>
  Claim C7.  \<open>Sum\<close> leaves the engine as it was, so a second \<open>Sum\<close> returns the same
  bytes, and a \<open>Write\<close> after a \<open>Sum\<close> gives the digests it would have given without the
  \<open>Sum\<close>.  This holds for every engine state of both revisions.
\<close>

theorem Sum_leaves_engine:
  "fst (Sum h p) = h \<and>
   snd (Sum (fst (Sum h p)) q) = snd (Sum h q) \<and>
   snd (Sum (Write (fst (Sum h p)) buf) q) = snd (Sum (Write h buf) q) \<and>
   fst (Sum_m g p) = g \<and>
   snd (Sum_m (fst (Sum_m g p)) q) = snd (Sum_m g q) \<and>
   snd (Sum_m (Write_m (fst (Sum_m g p)) buf) q) = snd (Sum_m (Write_m g buf) q)"
  by simp

text \<open>
  Claim C5.  \<open>UnmarshalBinary\<close> returns the length error for every buffer shorter than 81
  bytes, the corruption error for every buffer of at least 81 bytes whose byte 80 is 32 or
  more, and no error for every buffer of at least 81 bytes whose byte 80 is below 32.
\<close>

theorem UnmarshalBinary_errors:
  "(length data < 81 \<longrightarrow> snd (UnmarshalBinary h data) = Some ''invalid length'') \<and>
   (81 \<le> length data \<and> 32 \<le> data ! 80 \<longrightarrow> snd (UnmarshalBinary h data) = Some ''invalid data'') \<and>
   (81 \<le> length data \<and> data ! 80 < 32 \<longrightarrow> snd (UnmarshalBinary h data) = None)"
  by (auto simp: UnmarshalBinary_def Let_def)

theorem UnmarshalBinary_errors_witness:
  "snd (UnmarshalBinary (New_m 0) []) = Some ''invalid length'' \<and>
   snd (UnmarshalBinary (New_m 0) (replicate 80 0 @ [32])) = Some ''invalid data'' \<and>
   snd (UnmarshalBinary (New_m 0) (replicate 80 0 @ [31])) = None"
proof -
  have a: "length ([] :: byte list) < 81"
    by simp
  have b: "81 \<le> length (replicate 80 (0::byte) @ [32]) \<and> 32 \<le> (replicate 80 (0::byte) @ [32]) ! 80"
    by (simp add: nth_append)
  have c: "81 \<le> length (replicate 80 (0::byte) @ [31]) \<and> (replicate 80 (0::byte) @ [31]) ! 80 < 32"
    by (simp add: nth_append)
  show ?thesis
    using a b c UnmarshalBinary_errors [of "[]" "New_m 0"]
      UnmarshalBinary_errors [of "replicate 80 0 @ [32]" "New_m 0"]
      UnmarshalBinary_errors [of "replicate 80 0 @ [31]" "New_m 0"]
    by blast
qed

text \<open>
  Claim C6.  Whenever \<open>UnmarshalBinary\<close> returns an error, the engine is exactly what it
  was before the call; in particular, if its pending length was below 32 it still is.
\<close>

theorem UnmarshalBinary_atomic:
  "snd (UnmarshalBinary h data) \<noteq> None \<Longrightarrow>
   fst (UnmarshalBinary h data) = h \<and>
   (m_n h < 32 \<longrightarrow> m_n (fst (UnmarshalBinary h data)) < 32)"
  by (auto simp: UnmarshalBinary_def Let_def split: if_splits)

theorem UnmarshalBinary_atomic_witness:
  "snd (UnmarshalBinary (New_m 7) (replicate 80 0 @ [32])) \<noteq> None \<and>
   fst (UnmarshalBinary (New_m 7) (replicate 80 0 @ [32])) = New_m 7 \<and>
   m_n (fst (UnmarshalBinary (New_m 7) (replicate 80 0 @ [32]))) < 32"
proof -
  have e: "snd (UnmarshalBinary (New_m 7) (replicate 80 0 @ [32])) \<noteq> None"
    by (simp add: UnmarshalBinary_def nth_append)
  have n: "m_n (New_m 7) < 32"
    by (simp add: New_m_def)
  show ?thesis
    using e n UnmarshalBinary_atomic [OF e] by simp
qed

lemma UnmarshalBinary_wf: "wf_m h \<Longrightarrow> wf_m (fst (UnmarshalBinary h data))"
  by (auto simp: UnmarshalBinary_def Let_def wf_m_def word_le_nat_alt)

section \<open>The mixing core: source against specification\<close>

lemma RotateLeft64_rotl: "RotateLeft64 x k = word_rotl k x"
proof (rule bit_word_eqI)
  fix n :: nat
  assume "n < LENGTH(64)"
  then have n: "n < 64" by simp
  define s where "s = k mod 64"
  have s: "s < 64" by (simp add: s_def)
  have r: "bit (word_rotl k x) n \<longleftrightarrow> bit x ((n + (64 - s)) mod 64)"
    using n by (simp add: bit_word_rotl_iff s_def)
  have l: "bit (RotateLeft64 x k) n \<longleftrightarrow> (s \<le> n \<and> bit x (n - s)) \<or> bit x (64 - s + n)"
    using n by (simp add: RotateLeft64_def Let_def bit_or_iff bit_push_bit_iff bit_drop_bit_eq s_def)
  show "bit (RotateLeft64 x k) n \<longleftrightarrow> bit (word_rotl k x) n"
  proof (cases "s \<le> n")
    case True
    then have "(n + (64 - s)) mod 64 = n - s"
      using n s by (simp add: mod_if)
    moreover have "\<not> bit x (64 - s + n)"
      using True s bit_imp_le_length [of x "64 - s + n"] by auto
    ultimately show ?thesis
      using True by (simp add: l r)
  next
    case False
    then have "(n + (64 - s)) mod 64 = 64 - s + n"
      using n s by (simp add: add.commute)
    then show ?thesis
      using False by (simp add: l r)
  qed
qed

lemma Sum_round_mix: "Sum_round s b tot = mix_spec tot b s"
  by (cases s; cases b) (simp add: Sum_round_def mix_spec_def RotateLeft64_rotl Let_def add_ac)

lemma Sum_rounds_finalize: "Sum_rounds 0 s b tot = finalize_spec tot b s"
proof -
  have "(\<lambda>s. Sum_round s b tot) = mix_spec tot b"
    by (rule ext) (rule Sum_round_mix)
  then show ?thesis
    by (simp add: Sum_rounds_funpow finalize_spec_def)
qed

lemma write32_mix:
  "write32 h buf = h\<lparr>h_b := decode4 buf, h_s := mix_spec 0 (decode4 buf) (h_s h)\<rparr>"
  by (cases "h_s h") (simp add: write32_def mix_spec_def decode4_def RotateLeft64_rotl Let_def add_ac)

lemma write32_m_mix: "write32_m h buf = h\<lparr>m_s := mix_spec 0 (decode4 buf) (m_s h)\<rparr>"
  by (cases "m_s h") (simp add: write32_m_def mix_spec_def decode4_def RotateLeft64_rotl Let_def add_ac)

lemma Pengyhash_block_mix: "Pengyhash_block s buf = (decode4 buf, mix_spec 0 (decode4 buf) s)"
  by (cases s) (simp add: Pengyhash_block_def mix_spec_def decode4_def RotateLeft64_rotl Let_def add_ac)

lemma Pengyhash_finalize:
  "Pengyhash buf seed =
     (case Pengyhash_absorb (0, 0, 0, 0) (0, 0, 0, of_nat (length buf)) buf of
        (b, s, rest) \<Rightarrow>
          sum4_spec (finalize_spec (ucast seed) (decode4 (copy (encode4 zero32 b) 0 rest)) s))"
  by (simp add: Pengyhash_def Let_def Pengyhash_rounds_eq_Sum_rounds Sum_rounds_finalize sum4_spec_def
      split: prod.splits)

text \<open>
  Claim C9.  Absorbing a block is the mixing sequence of the specification with no extra
  term, in \<open>write32\<close> of both revisions and in the first loop of \<open>Pengyhash\<close>.
  Finalization is that sequence six times in a row on a copy of the accumulator, with the
  virtual final block fixed, the extra term being the total byte counter in \<open>Sum\<close> and
  the 32-bit seed widened to 64 bits in \<open>Pengyhash\<close>.
\<close>

theorem finalization_structure:
  "write32 h buf = h\<lparr>h_b := decode4 buf, h_s := mix_spec 0 (decode4 buf) (h_s h)\<rparr> \<and>
   write32_m g buf = g\<lparr>m_s := mix_spec 0 (decode4 buf) (m_s g)\<rparr> \<and>
   Pengyhash_block s buf = (decode4 buf, mix_spec 0 (decode4 buf) s) \<and>
   Sum h p =
     (h, p @ encode4 zero32
        (finalize_spec (h_total h)
           (decode4 (copy (encode4 zero32 (h_b h)) 0 (take (h_n h) (h_tmp h)))) (h_s h))) \<and>
   Sum_m g p =
     (g, p @ encode4 zero32 (finalize_spec (m_total g) (decode4 (m_block g)) (m_s g))) \<and>
   Pengyhash buf' seed =
     (case Pengyhash_absorb (0, 0, 0, 0) (0, 0, 0, of_nat (length buf')) buf' of
        (b, s', rest) \<Rightarrow>
          sum4_spec (finalize_spec (ucast seed) (decode4 (copy (encode4 zero32 b) 0 rest)) s'))"
proof (intro conjI)
  show "Sum h p =
     (h, p @ encode4 zero32
        (finalize_spec (h_total h)
           (decode4 (copy (encode4 zero32 (h_b h)) 0 (take (h_n h) (h_tmp h)))) (h_s h)))"
    by (simp add: prod_eq_iff Sum_out Sum_rounds_finalize)
  show "Sum_m g p =
     (g, p @ encode4 zero32 (finalize_spec (m_total g) (decode4 (m_block g)) (m_s g)))"
    by (simp add: prod_eq_iff Sum_m_out Sum_rounds_finalize)
qed (rule write32_mix write32_m_mix Pengyhash_block_mix Pengyhash_finalize)+

section \<open>The one-shot engine: source against specification\<close>

lemma complete_blocks_short: "length buf < 32 \<Longrightarrow> blocks_spec buf = []"
  by (simp add: blocks_spec_def)

lemma complete_blocks_long:
  assumes "32 \<le> length buf"
  shows "blocks_spec buf = take 32 buf # blocks_spec (drop 32 buf)"
proof -
  have k: "length buf div 32 = Suc ((length buf - 32) div 32)"
    using assms by (simp add: le_div_geq)
  have "[0..<Suc ((length buf - 32) div 32)] = 0 # map Suc [0..<(length buf - 32) div 32]"
    by (simp add: upt_conv_Cons map_Suc_upt del: upt_Suc)
  then show ?thesis
    by (simp add: blocks_spec_def k comp_def add.commute del: upt_Suc)
qed

lemma decode4_take32: "32 \<le> length buf \<Longrightarrow> decode4 (take 32 buf) = decode4 buf"
  by (simp add: decode4_def Uint64_def)

lemma Pengyhash_absorb_blocks:
  "Pengyhash_absorb b s buf =
     (if blocks_spec buf = [] then b else decode4 (last (blocks_spec buf)),
      foldl (\<lambda>S blk. mix_spec 0 (decode4 blk) S) s (blocks_spec buf),
      drop (length buf - length buf mod 32) buf)"
proof (induction b s buf rule: Pengyhash_absorb.induct)
  case (1 b s buf)
  show ?case
  proof (cases "32 \<le> length buf")
    case True
    have "(length buf - 32) mod 32 = length buf mod 32"
      using True by (simp add: le_mod_geq)
    then have "length buf mod 32 \<le> length buf - 32"
      by (metis mod_less_eq_dividend)
    then have m: "length buf - (32 + length buf mod 32) + 32 = length buf - length buf mod 32"
      using True by linarith
    show ?thesis
      using True 1 [OF True]
      by (simp add: Pengyhash_absorb_long complete_blocks_long Pengyhash_block_mix
          decode4_take32 m le_mod_geq)
  next
    case False
    then show ?thesis
      by (simp add: Pengyhash_absorb_short complete_blocks_short)
  qed
qed

text \<open>
  The decoder and the byte image of the source agree with those of the specification.
\<close>

lemma of_nat_le_value_Cons:
  "(of_nat (le_value_spec (b # bs)) :: uint64) = ucast b OR push_bit 8 (of_nat (le_value_spec bs))"
proof -
  have "(of_nat (le_value_spec (b # bs)) :: uint64) =
      ucast b + push_bit 8 (of_nat (le_value_spec bs))"
    by (simp add: push_bit_eq_mult)
  also have "\<dots> = ucast b OR push_bit 8 (of_nat (le_value_spec bs))"
  proof (rule disjunctive_add)
    fix n
    show "\<not> bit (ucast b :: uint64) n \<or> \<not> bit (push_bit 8 (of_nat (le_value_spec bs) :: uint64)) n"
      using bit_imp_le_length [of b n] by (auto simp: bit_ucast_iff bit_push_bit_iff)
  qed
  finally show ?thesis .
qed

lemma take_8:
  assumes "8 \<le> length bs"
  shows "take 8 bs = [bs ! 0, bs ! 1, bs ! 2, bs ! 3, bs ! 4, bs ! 5, bs ! 6, bs ! 7]"
proof -
  have "0 < length bs"
    using assms by auto
  then have "take (Suc 0) bs = [bs ! 0]"
    by (cases bs) simp_all
  then show ?thesis
    using assms by (simp add: numeral_eq_Suc take_Suc_conv_app_nth)
qed

lemma Uint64_le_value: "8 \<le> length bs \<Longrightarrow> Uint64 bs = of_nat (le_value_spec (take 8 bs))"
  by (simp only: take_8 of_nat_le_value_Cons) (simp add: Uint64_def)

lemma decode4_words_spec: "32 \<le> length blk \<Longrightarrow> decode4 blk = words_spec blk"
  by (simp add: decode4_def words_spec_def word_at_spec_def Uint64_le_value)

lemma upt_8: "[0..<8] = [0, 1, 2, 3, 4, 5, 6, 7]"
  by (simp add: numeral_eq_Suc)

lemma ucast_drop_bit_byte: "(ucast (drop_bit k (v :: uint64)) :: byte) = of_nat (unat v div 2 ^ k)"
proof -
  have "(ucast (drop_bit k v) :: byte) = of_nat (unat (drop_bit k v))"
    by simp
  also have "unat (drop_bit k v) = unat v div 2 ^ k"
    unfolding unat_drop_bit_eq by (simp add: drop_bit_eq_div)
  finally show ?thesis .
qed

lemma le_bytes_image: "le_bytes v = le_image_spec v"
  using ucast_drop_bit_byte [of 0 v] ucast_drop_bit_byte [of 8 v] ucast_drop_bit_byte [of 16 v]
    ucast_drop_bit_byte [of 24 v] ucast_drop_bit_byte [of 32 v] ucast_drop_bit_byte [of 40 v]
    ucast_drop_bit_byte [of 48 v] ucast_drop_bit_byte [of 56 v]
  by (simp add: le_bytes_def le_image_spec_def upt_8)

lemma encode4_image_spec: "encode4 zero32 w = image_spec w"
  by (cases w) (simp add: encode4_32 image_spec_def le_bytes_image)

lemma blocks_spec_length: "blk \<in> set (blocks_spec buf) \<Longrightarrow> length blk = 32"
proof -
  assume "blk \<in> set (blocks_spec buf)"
  then obtain i where i: "i < length buf div 32" and blk: "blk = take 32 (drop (32 * i) buf)"
    by (auto simp: blocks_spec_def)
  have "32 * Suc i \<le> 32 * (length buf div 32)"
    using i by simp
  also have "\<dots> \<le> length buf"
    by simp
  finally show ?thesis
    by (simp add: blk)
qed

text \<open>
  Claim C8.  For every buffer, of any length, and every 32-bit seed, \<open>Pengyhash\<close> returns
  what the specification's one-shot algorithm returns: it starts from
  \<open>S = (0, 0, 0, len)\<close>, absorbs each complete 32-byte block as four little-endian
  64-bit words, overlays the trailing \<open>r < 32\<close> bytes on the little-endian byte image of
  the block absorbed last (zero words if none), runs six finalization rounds and adds the
  four words.  \<open>Pengyhash_spec\<close> is worded with \<open>words_spec\<close>, \<open>image_spec\<close> and
  \<open>mix_spec\<close>, none of which is built from the source's decoder, encoder or rotation.
\<close>

theorem Pengyhash_refines_spec: "Pengyhash buf seed = Pengyhash_spec buf seed"
proof -
  let ?r = "length buf mod 32"
  let ?rest = "drop (length buf - ?r) buf"
  let ?blocks = "blocks_spec buf"
  have r: "?r \<le> 32"
    using mod_less_divisor [of 32 "length buf"] by linarith
  have "copy_count (encode4 zero32 b) 0 ?rest = ?r" for b
    using r by (simp add: copy_count_def min_absorb2)
  then have overlay: "copy (encode4 zero32 b) 0 ?rest = ?rest @ drop ?r (encode4 zero32 b)" for b
    by (simp add: copy_def)
  have absorbed: "foldl (\<lambda>S blk. mix_spec 0 (decode4 blk) S) s ?blocks =
      foldl (\<lambda>S blk. mix_spec 0 (words_spec blk) S) s ?blocks" for s
    by (rule foldl_cong) (simp_all add: decode4_words_spec blocks_spec_length)
  have cache: "(if ?blocks = [] then z else decode4 (last ?blocks)) =
      (if ?blocks = [] then z else words_spec (last ?blocks))" for z
  proof (cases "?blocks = []")
    case True
    then show ?thesis by simp
  next
    case False
    then have "last ?blocks \<in> set ?blocks"
      by (rule last_in_set)
    then have "length (last ?blocks) = 32"
      by (rule blocks_spec_length)
    with False show ?thesis
      by (simp add: decode4_words_spec)
  qed
  have "32 \<le> length (?rest @ drop ?r (encode4 zero32 b))" for b
    using r by simp
  then have virtual: "decode4 (?rest @ drop ?r (encode4 zero32 b)) =
      words_spec (?rest @ drop ?r (image_spec b))" for b
    by (simp only: decode4_words_spec encode4_image_spec)
  show ?thesis
    by (simp add: Pengyhash_finalize Pengyhash_absorb_blocks Pengyhash_spec_def Let_def
        overlay absorbed cache virtual)
qed

section \<open>The invariant of the marshalling engine\<close>

lemma write32_m_block [simp]: "m_block (write32_m h buf) = m_block h"
  by (simp add: write32_m_mix)

lemma write32_m_n [simp]: "m_n (write32_m h buf) = m_n h"
  by (simp add: write32_m_mix)

lemma Write_loop_m_inv:
  "length (m_block h) = 32 \<Longrightarrow>
   length (m_block (fst (Write_loop_m h buf))) = 32 \<and> length (snd (Write_loop_m h buf)) < 32"
proof (induction h buf rule: Write_loop_m.induct)
  case (1 h buf)
  show ?case
  proof (cases "32 \<le> length buf")
    case True
    have "length (m_block (Write_body_m h buf)) = 32"
      using 1(2) by (simp add: Write_body_m_def Let_def)
    with 1(1) [OF True] show ?thesis
      using True by (simp add: Write_loop_m_long)
  next
    case False
    with 1(2) show ?thesis
      by (simp add: Write_loop_m_short)
  qed
qed

lemma Write_fill_m_inv:
  "wf_m h \<Longrightarrow> length (m_block (fst (Write_fill_m h buf))) = 32"
  by (simp add: Write_fill_m_def wf_m_def Let_def)

lemma wf_m_Write_m: "wf_m h \<Longrightarrow> wf_m (Write_m h buf)"
proof -
  assume h: "wf_m h"
  let ?h1 = "h\<lparr>m_total := m_total h + of_nat (length buf)\<rparr>"
  have "wf_m ?h1"
    using h by (simp add: wf_m_def)
  then have f: "length (m_block (fst (Write_fill_m ?h1 buf))) = 32"
    by (rule Write_fill_m_inv)
  show ?thesis
    using Write_loop_m_inv [OF f, of "snd (Write_fill_m ?h1 buf)"]
    by (simp add: Write_m_def Let_def wf_m_def copy_count_def case_prod_beta)
qed

lemma wf_m_New_m: "wf_m (New_m seed)"
  by (simp add: wf_m_def New_m_def)

lemma wf_m_writes: "wf_m h \<Longrightarrow> wf_m (foldl Write_m h chunks)"
  by (induction chunks arbitrary: h) (simp_all add: wf_m_Write_m)

section \<open>Marshalling round trip\<close>

lemma MarshalBinary_layout:
  assumes "length (m_block h) = 32"
  shows "MarshalBinary h =
     m_block h @ le_bytes (fst (m_s h)) @ le_bytes (fst (snd (m_s h))) @
     le_bytes (fst (snd (snd (m_s h)))) @ le_bytes (snd (snd (snd (m_s h)))) @
     le_bytes (m_seed h) @ le_bytes (m_total h) @ [of_nat (m_n h)]"
proof -
  obtain s0 s1 s2 s3 where s: "m_s h = (s0, s1, s2, s3)"
    by (cases "m_s h")
  let ?B = "m_block h"
  have n81: "(32 + 32 + 8 + 8 + 1 :: nat) = 81"
    by simp
  have b0: "copy (replicate 81 0) 0 ?B = ?B @ replicate (8 + 41) 0"
    using assms by (simp add: copy_def copy_count_def)
  have b1: "PutUint64 (?B @ replicate (8 + 41) 0) 32 s0 = (?B @ le_bytes s0) @ replicate (8 + 33) 0"
    using assms by (simp add: PutUint64_def)
  have b2: "PutUint64 ((?B @ le_bytes s0) @ replicate (8 + 33) 0) 40 s1 =
      ((?B @ le_bytes s0) @ le_bytes s1) @ replicate (8 + 25) 0"
    using assms by (simp add: PutUint64_def)
  have b3: "PutUint64 (((?B @ le_bytes s0) @ le_bytes s1) @ replicate (8 + 25) 0) 48 s2 =
      (((?B @ le_bytes s0) @ le_bytes s1) @ le_bytes s2) @ replicate (8 + 17) 0"
    using assms by (simp add: PutUint64_def)
  have b4: "PutUint64 ((((?B @ le_bytes s0) @ le_bytes s1) @ le_bytes s2) @ replicate (8 + 17) 0) 56 s3 =
      ((((?B @ le_bytes s0) @ le_bytes s1) @ le_bytes s2) @ le_bytes s3) @ replicate (8 + 9) 0"
    using assms by (simp add: PutUint64_def)
  have b5: "PutUint64 (((((?B @ le_bytes s0) @ le_bytes s1) @ le_bytes s2) @ le_bytes s3) @
        replicate (8 + 9) 0) 64 (m_seed h) =
      (((((?B @ le_bytes s0) @ le_bytes s1) @ le_bytes s2) @ le_bytes s3) @ le_bytes (m_seed h)) @
        replicate (8 + 1) 0"
    using assms by (simp add: PutUint64_def)
  have b6: "PutUint64 ((((((?B @ le_bytes s0) @ le_bytes s1) @ le_bytes s2) @ le_bytes s3) @
        le_bytes (m_seed h)) @ replicate (8 + 1) 0) 72 (m_total h) =
      ((((((?B @ le_bytes s0) @ le_bytes s1) @ le_bytes s2) @ le_bytes s3) @ le_bytes (m_seed h)) @
        le_bytes (m_total h)) @ replicate 1 0"
    using assms by (simp add: PutUint64_def)
  have b7: "(pre @ replicate 1 0)[80 := x] = pre @ [x]" if "length pre = 80" for pre and x :: byte
    using that by (simp add: list_update_append)
  have l: "length (((((((?B @ le_bytes s0) @ le_bytes s1) @ le_bytes s2) @ le_bytes s3) @
        le_bytes (m_seed h)) @ le_bytes (m_total h))) = 80"
    using assms by simp
  have "MarshalBinary h =
      ((((((?B @ le_bytes s0) @ le_bytes s1) @ le_bytes s2) @ le_bytes s3) @ le_bytes (m_seed h)) @
        le_bytes (m_total h)) @ [of_nat (m_n h)]"
    unfolding MarshalBinary_def s
    by (simp only: prod.case Let_def n81 b0 b1 b2 b3 b4 b5 b6 b7 [OF l])
  then show ?thesis
    by (simp add: s)
qed

lemma UnmarshalBinary_MarshalBinary:
  assumes g: "length (m_block g) = 32" and h: "wf_m h"
  shows "UnmarshalBinary g (MarshalBinary h) = (h, None)"
proof -
  obtain s0 s1 s2 s3 where s: "m_s h = (s0, s1, s2, s3)"
    by (cases "m_s h")
  have b: "length (m_block h) = 32" and n: "m_n h < 32"
    using h by (simp_all add: wf_m_def)
  let ?data = "m_block h @ le_bytes s0 @ le_bytes s1 @ le_bytes s2 @ le_bytes s3 @
     le_bytes (m_seed h) @ le_bytes (m_total h) @ [of_nat (m_n h)]"
  have d: "MarshalBinary h = ?data"
    using MarshalBinary_layout [OF b] by (simp add: s)
  have l: "length ?data = 81"
    using b by simp
  have last: "?data ! 80 = of_nat (m_n h)"
    using b by (simp add: nth_append)
  have u: "unat (of_nat (m_n h) :: byte) = m_n h"
    using n by (simp add: unat_of_nat)
  have ok: "\<not> 32 \<le> (of_nat (m_n h) :: byte)"
    using n u by (simp add: word_le_nat_alt)
  have c: "copy (m_block g) 0 ?data = m_block h"
    using g b by (simp add: copy_def copy_count_def)
  have w: "Uint64 (drop 32 ?data) = s0" "Uint64 (drop 40 ?data) = s1"
    "Uint64 (drop 48 ?data) = s2" "Uint64 (drop 56 ?data) = s3"
    "Uint64 (drop 64 ?data) = m_seed h" "Uint64 (drop 72 ?data) = m_total h"
    using b by simp_all
  show ?thesis
    unfolding d UnmarshalBinary_def
    by (simp only: l last ok c w u Let_def) (simp add: s)
qed

text \<open>
  Claim C4.  For every engine reached from \<open>New seed\<close> by any sequence of \<open>Write\<close>
  calls, \<open>MarshalBinary\<close> returns 81 bytes, and \<open>UnmarshalBinary\<close> of these bytes into
  an engine built with any seed \<open>k\<close> succeeds and yields the very same state; hence all
  later \<open>Write\<close> and \<open>Sum\<close> results agree.
\<close>

theorem state_round_trip:
  "length (MarshalBinary (foldl Write_m (New_m seed) chunks)) = 81 \<and>
   UnmarshalBinary (New_m k) (MarshalBinary (foldl Write_m (New_m seed) chunks)) =
     (foldl Write_m (New_m seed) chunks, None) \<and>
   Sum_m (foldl Write_m
       (fst (UnmarshalBinary (New_m k) (MarshalBinary (foldl Write_m (New_m seed) chunks)))) later) p =
     Sum_m (foldl Write_m (foldl Write_m (New_m seed) chunks) later) p"
proof -
  let ?h = "foldl Write_m (New_m seed) chunks"
  have h: "wf_m ?h"
    by (rule wf_m_writes [OF wf_m_New_m])
  have g: "length (m_block (New_m k)) = 32"
    by (simp add: New_m_def)
  have "length (MarshalBinary ?h) = 81"
    using h by (simp add: MarshalBinary_layout wf_m_def)
  then show ?thesis
    by (simp add: UnmarshalBinary_MarshalBinary [OF g h])
qed

section \<open>Chunked writes and \<open>Reset\<close>\<close>

subsection \<open>The invariant of the engine of src/pengyhash.go, and the slip in \<open>Write\<close>\<close>

lemma write32_tmp [simp]: "h_tmp (write32 h buf) = h_tmp h"
  by (simp add: write32_mix)

lemma write32_n [simp]: "h_n (write32 h buf) = h_n h"
  by (simp add: write32_mix)

lemma write32_seed [simp]: "h_seed (write32 h buf) = h_seed h"
  by (simp add: write32_mix)

lemma Write_loop_inv:
  "length (snd (Write_loop h buf)) < 32 \<and> h_tmp (fst (Write_loop h buf)) = h_tmp h \<and>
   h_n (fst (Write_loop h buf)) = h_n h \<and> h_seed (fst (Write_loop h buf)) = h_seed h"
proof (induction h buf rule: Write_loop.induct)
  case (1 h buf)
  show ?case
  proof (cases "32 \<le> length buf")
    case True
    with 1 [OF True] show ?thesis
      by (simp add: Write_loop_long)
  next
    case False
    then show ?thesis
      by (simp add: Write_loop_short)
  qed
qed

lemma Write_fill_inv:
  "wf h \<Longrightarrow> length (h_tmp (fst (Write_fill h buf))) = 32 \<and>
     h_seed (fst (Write_fill h buf)) = h_seed h"
  by (simp add: Write_fill_def wf_def Let_def)

lemma wf_Write: "wf h \<Longrightarrow> wf (Write h buf)"
proof -
  assume h: "wf h"
  let ?h1 = "h\<lparr>h_total := h_total h + of_nat (length buf)\<rparr>"
  have "wf ?h1"
    using h by (simp add: wf_def)
  then have f: "length (h_tmp (fst (Write_fill ?h1 buf))) = 32"
    by (simp add: Write_fill_inv)
  show ?thesis
    using f Write_loop_inv [of "fst (Write_fill ?h1 buf)" "snd (Write_fill ?h1 buf)"]
    by (simp add: Write_def Let_def wf_def copy_count_def case_prod_beta)
qed

lemma Write_seed: "wf h \<Longrightarrow> h_seed (Write h buf) = h_seed h"
proof -
  assume h: "wf h"
  let ?h1 = "h\<lparr>h_total := h_total h + of_nat (length buf)\<rparr>"
  have "wf ?h1"
    using h by (simp add: wf_def)
  then have f: "h_seed (fst (Write_fill ?h1 buf)) = h_seed h"
    by (simp add: Write_fill_inv)
  show ?thesis
    using f Write_loop_inv [of "fst (Write_fill ?h1 buf)" "snd (Write_fill ?h1 buf)"]
    by (simp add: Write_def Let_def case_prod_beta)
qed

lemma wf_New: "wf (New seed)"
  by (simp add: wf_def New_def)

lemma wf_Reset: "wf h \<Longrightarrow> wf (Reset h)"
  by (simp add: wf_def Reset_def)

lemma writes_inv: "wf h \<Longrightarrow> wf (foldl Write h chunks) \<and> h_seed (foldl Write h chunks) = h_seed h"
  by (induction chunks arbitrary: h) (simp_all add: wf_Write Write_seed)

text \<open>The slip in \<open>Write\<close>, in general.\<close>

lemma Write_partial_fill:
  assumes "wf h" and "0 < h_n h" and "h_n h + length buf < 32"
  shows "h_n (Write h buf) = 0 \<and>
     h_tmp (Write h buf) = take (h_n h) (h_tmp h) @ buf @ drop (h_n h + length buf) (h_tmp h)"
  using assms
  by (simp add: Write_def Write_fill_def Let_def wf_def copy_def copy_count_def Write_loop_short)

lemma Write_m_partial_fill:
  assumes "wf_m h" and "0 < m_n h" and "m_n h + length buf < 32"
  shows "m_n (Write_m h buf) = 0 \<and>
     m_block (Write_m h buf) = take (m_n h) (m_block h) @ buf @ drop (m_n h + length buf) (m_block h)"
  using assms
  by (simp add: Write_m_def Write_fill_m_def Let_def wf_m_def copy_def copy_count_def
      Write_loop_m_short)

subsection \<open>\<open>Reset\<close> of src/pengyhash.go\<close>

text \<open>\<open>Reset\<close> of src/pengyhash.go: it keeps the seed, and the stale bytes of \<open>tmp\<close> are never read.\<close>

lemma Reset_eq: "Reset h = (New (h_seed h))\<lparr>h_tmp := h_tmp h\<rparr>"
  by (simp add: Reset_def New_def)

lemma write32_tmp_update: "write32 (h\<lparr>h_tmp := t\<rparr>) buf = (write32 h buf)\<lparr>h_tmp := t\<rparr>"
  by (simp add: write32_mix)

lemma Write_loop_tmp_update:
  "Write_loop (h\<lparr>h_tmp := t\<rparr>) buf =
     ((fst (Write_loop h buf))\<lparr>h_tmp := t\<rparr>, snd (Write_loop h buf))"
proof (induction h buf rule: Write_loop.induct)
  case (1 h buf)
  show ?case
  proof (cases "32 \<le> length buf")
    case True
    with 1 [OF True] show ?thesis
      by (simp add: Write_loop_long write32_tmp_update)
  next
    case False
    then show ?thesis
      by (simp add: Write_loop_short)
  qed
qed

lemma Write_pending_0:
  "h_n h = 0 \<Longrightarrow>
   Write h buf =
     (fst (Write_loop (h\<lparr>h_total := h_total h + of_nat (length buf)\<rparr>) buf))
       \<lparr>h_tmp := copy (h_tmp h) 0 (snd (Write_loop (h\<lparr>h_total := h_total h + of_nat (length buf)\<rparr>) buf)),
        h_n := copy_count (h_tmp h) 0 (snd (Write_loop (h\<lparr>h_total := h_total h + of_nat (length buf)\<rparr>) buf))\<rparr>"
  using Write_loop_inv [of "h\<lparr>h_total := h_total h + of_nat (length buf)\<rparr>" buf]
  by (simp add: Write_def Write_fill_def case_prod_beta Let_def)

lemma Sum_Write_fresh_tmp:
  assumes n: "h_n h = 0" and t: "length t = 32" and l: "length (h_tmp h) = 32"
  shows "snd (Sum (Write (h\<lparr>h_tmp := t\<rparr>) buf) p) = snd (Sum (Write h buf) p)"
proof -
  let ?h1 = "h\<lparr>h_total := h_total h + of_nat (length buf)\<rparr>"
  let ?r = "snd (Write_loop ?h1 buf)"
  have r: "length ?r < 32"
    using Write_loop_inv [of ?h1 buf] by simp
  have u: "h\<lparr>h_tmp := t, h_total := h_total h + of_nat (length buf)\<rparr> = ?h1\<lparr>h_tmp := t\<rparr>"
    by simp
  have c: "take (length ?r) (copy x 0 ?r) = ?r \<and> copy_count x 0 ?r = length ?r"
    if "length x = 32" for x
    using that r by (simp add: copy_def copy_count_def)
  have a: "Write (h\<lparr>h_tmp := t\<rparr>) buf =
      (fst (Write_loop ?h1 buf))\<lparr>h_tmp := copy t 0 ?r, h_n := copy_count t 0 ?r\<rparr>"
    using n by (simp add: Write_pending_0 u Write_loop_tmp_update)
  have b: "Write h buf =
      (fst (Write_loop ?h1 buf))\<lparr>h_tmp := copy (h_tmp h) 0 ?r, h_n := copy_count (h_tmp h) 0 ?r\<rparr>"
    using n by (rule Write_pending_0)
  show ?thesis
    unfolding a b by (simp add: Sum_out c [OF t] c [OF l])
qed

lemma Reset_then_Write:
  assumes "wf h"
  shows "snd (Sum (Write (Reset h) buf) p) = snd (Sum (Write (New (h_seed h)) buf) p)"
proof -
  have n: "h_n (New (h_seed h)) = 0" and l: "length (h_tmp (New (h_seed h))) = 32"
    by (simp_all add: New_def)
  have t: "length (h_tmp h) = 32"
    using assms by (simp add: wf_def)
  show ?thesis
    unfolding Reset_eq by (rule Sum_Write_fresh_tmp [OF n t l])
qed

lemma Reset_equivalence:
  "snd (Sum (Write (Reset (foldl Write (New seed) chunks)) buf) p) =
     snd (Sum (Write (New seed) buf) p)"
proof -
  have "wf (foldl Write (New seed) chunks)" and "h_seed (foldl Write (New seed) chunks) = seed"
    using writes_inv [OF wf_New, of seed chunks] by (simp_all add: New_def)
  then show ?thesis
    using Reset_then_Write [of "foldl Write (New seed) chunks" buf p] by simp
qed

subsection \<open>Chunks that may be merged\<close>

text \<open>
  What does hold of chunking in src/pengyhash.go: a chunk whose length is a multiple of 32,
  written when nothing is pending, can be merged with the chunk that follows it.
\<close>

lemma decode4_append:
  assumes "32 \<le> length a"
  shows "decode4 (a @ b) = decode4 a"
proof -
  have "decode4 (a @ b) = decode4 (take 32 (a @ b))"
    using assms by (simp add: decode4_take32 del: take_append)
  also have "take 32 (a @ b) = take 32 a"
    using assms by simp
  finally show ?thesis
    using assms by (simp add: decode4_take32)
qed

lemma write32_append: "32 \<le> length a \<Longrightarrow> write32 h (a @ b) = write32 h a"
  by (simp add: write32_mix decode4_append)

lemma Write_loop_append:
  "32 dvd length a \<Longrightarrow> Write_loop h (a @ b) = Write_loop (fst (Write_loop h a)) b"
proof (induction h a rule: Write_loop.induct)
  case (1 h a)
  show ?case
  proof (cases "32 \<le> length a")
    case True
    then have "32 dvd length (drop 32 a)"
      using 1(2) by (simp add: dvd_diff_nat)
    with 1(1) [OF True] True show ?thesis
      by (simp add: Write_loop_long [of a] Write_loop_long [of "a @ b"] write32_append)
  next
    case False
    with 1(2) have "a = []"
      by (auto dest: dvd_imp_le)
    then show ?thesis
      by (simp add: Write_loop_short)
  qed
qed

lemma write32_total_update:
  "write32 (h\<lparr>h_total := x\<rparr>) buf = (write32 h buf)\<lparr>h_total := x\<rparr>"
  by (simp add: write32_mix)

lemma Write_loop_total_update:
  "Write_loop (h\<lparr>h_total := x\<rparr>) buf =
     ((fst (Write_loop h buf))\<lparr>h_total := x\<rparr>, snd (Write_loop h buf))"
proof (induction h buf rule: Write_loop.induct)
  case (1 h buf)
  show ?case
  proof (cases "32 \<le> length buf")
    case True
    with 1 [OF True] show ?thesis
      by (simp add: Write_loop_long write32_total_update)
  next
    case False
    then show ?thesis
      by (simp add: Write_loop_short)
  qed
qed

lemma Write_loop_aligned_rest: "32 dvd length a \<Longrightarrow> snd (Write_loop h a) = []"
  using Write_loop_append [of a h "[]"] Write_loop_inv [of h a]
  by (metis Write_loop_short append_Nil2 list.size(3) snd_conv zero_less_numeral)

lemma Write_aligned:
  assumes n: "h_n h = 0" and a: "32 dvd length a"
  shows "Write h a = (fst (Write_loop h a))\<lparr>h_total := h_total h + of_nat (length a)\<rparr>"
proof -
  let ?g = "fst (Write_loop h a)"
  have "h_tmp ?g = h_tmp h" and "h_n ?g = 0"
    using Write_loop_inv [of h a] n by simp_all
  then have "?g\<lparr>h_total := x, h_tmp := h_tmp h, h_n := 0\<rparr> = ?g\<lparr>h_total := x\<rparr>" for x
    by (cases ?g) simp
  then show ?thesis
    using n by (simp add: Write_pending_0 Write_loop_total_update Write_loop_aligned_rest [OF a]
        copy_def copy_count_def)
qed

lemma Write_Write_aligned:
  assumes n: "h_n h = 0" and a: "32 dvd length a"
  shows "Write (Write h a) b = Write h (a @ b)"
proof -
  let ?g = "fst (Write_loop h a)"
  have g: "h_tmp ?g = h_tmp h" "h_n ?g = 0"
    using Write_loop_inv [of h a] n by simp_all
  have "Write (Write h a) b =
      Write (?g\<lparr>h_total := h_total h + of_nat (length a)\<rparr>) b"
    by (simp add: Write_aligned [OF n a])
  also have "\<dots> = Write h (a @ b)"
    using n g
    by (simp add: Write_pending_0 Write_loop_total_update Write_loop_append [OF a] add.assoc)
  finally show ?thesis .
qed

lemma Write_n_aligned: "h_n h = 0 \<Longrightarrow> 32 dvd length a \<Longrightarrow> h_n (Write h a) = 0"
  using Write_loop_inv [of h a] by (simp add: Write_aligned)

lemma writes_aligned:
  assumes "h_n h = 0" and "\<forall>c \<in> set chunks. 32 dvd length c"
  shows "foldl Write h (chunks @ [final]) = Write h (concat chunks @ final)"
  using assms
proof (induction chunks arbitrary: h)
  case Nil
  then show ?case by simp
next
  case (Cons c chunks)
  then have "foldl Write (Write h c) (chunks @ [final]) = Write (Write h c) (concat chunks @ final)"
    by (simp add: Write_n_aligned)
  with Cons.prems show ?case
    by (simp add: Write_Write_aligned)
qed

text \<open>The same for the engine of src/README.md.\<close>

lemma write32_m_append: "32 \<le> length a \<Longrightarrow> write32_m h (a @ b) = write32_m h a"
  by (simp add: write32_m_mix decode4_append)

lemma write32_m_block_update:
  "write32_m (h\<lparr>m_block := x\<rparr>) buf = (write32_m h buf)\<lparr>m_block := x\<rparr>"
  by (simp add: write32_m_mix)

lemma write32_m_total_update:
  "write32_m (h\<lparr>m_total := x\<rparr>) buf = (write32_m h buf)\<lparr>m_total := x\<rparr>"
  by (simp add: write32_m_mix)

lemma Write_body_m_total_update:
  "Write_body_m (h\<lparr>m_total := x\<rparr>) buf = (Write_body_m h buf)\<lparr>m_total := x\<rparr>"
  by (simp add: Write_body_m_def Let_def write32_m_total_update)

lemma Write_loop_m_total_update:
  "Write_loop_m (h\<lparr>m_total := x\<rparr>) buf =
     ((fst (Write_loop_m h buf))\<lparr>m_total := x\<rparr>, snd (Write_loop_m h buf))"
proof (induction h buf rule: Write_loop_m.induct)
  case (1 h buf)
  show ?case
  proof (cases "32 \<le> length buf")
    case True
    with 1 [OF True] show ?thesis
      by (simp add: Write_loop_m_long Write_body_m_total_update)
  next
    case False
    then show ?thesis
      by (simp add: Write_loop_m_short)
  qed
qed

lemma Write_body_m_n [simp]: "m_n (Write_body_m h buf) = m_n h"
  by (simp add: Write_body_m_def Let_def)

lemma Write_loop_m_n: "m_n (fst (Write_loop_m h buf)) = m_n h"
proof (induction h buf rule: Write_loop_m.induct)
  case (1 h buf)
  show ?case
  proof (cases "32 \<le> length buf")
    case True
    with 1 [OF True] show ?thesis
      by (simp add: Write_loop_m_long)
  next
    case False
    then show ?thesis
      by (simp add: Write_loop_m_short)
  qed
qed

lemma Write_body_m_length:
  "length (m_block h) = 32 \<Longrightarrow> length (m_block (Write_body_m h buf)) = 32"
  by (simp add: Write_body_m_def Let_def)

lemma Write_loop_m_any_block:
  assumes "32 \<le> length b" and "length (m_block h) = 32" and "length x = 32"
  shows "Write_loop_m (h\<lparr>m_block := x\<rparr>) b = Write_loop_m h b"
  using assms
proof (induction h b rule: Write_loop_m.induct)
  case (1 h b)
  show ?case
  proof (cases "length b < 64")
    case True
    have "Write_body_m (h\<lparr>m_block := x\<rparr>) b = Write_body_m h b"
      using True 1(2,3,4)
      by (simp add: Write_body_m_def Let_def write32_m_block_update copy_def copy_count_def)
    then show ?thesis
      using 1(2) by (simp add: Write_loop_m_long)
  next
    case False
    have "Write_body_m (h\<lparr>m_block := x\<rparr>) b = (Write_body_m h b)\<lparr>m_block := x\<rparr>"
      using False by (simp add: Write_body_m_def Let_def write32_m_block_update)
    moreover have "Write_loop_m ((Write_body_m h b)\<lparr>m_block := x\<rparr>) (drop 32 b) =
        Write_loop_m (Write_body_m h b) (drop 32 b)"
      using False 1(2,3,4) by (intro 1(1)) (simp_all add: Write_body_m_length)
    ultimately show ?thesis
      using 1(2) by (simp add: Write_loop_m_long)
  qed
qed

lemma Write_loop_m_append:
  assumes "32 dvd length a" and "length (m_block h) = 32"
  shows "Write_loop_m h (a @ b) = Write_loop_m (fst (Write_loop_m h a)) b"
  using assms
proof (induction h a rule: Write_loop_m.induct)
  case (1 h a)
  show ?case
  proof (cases "32 \<le> length a")
    case long: True
    show ?thesis
    proof (cases "64 \<le> length a")
      case True
      then have "Write_body_m h (a @ b) = Write_body_m h a"
        by (simp add: Write_body_m_def Let_def write32_m_append)
      moreover have "32 dvd length (drop 32 a)"
        using long 1(2) by (simp add: dvd_diff_nat)
      ultimately show ?thesis
        using long 1(1) [OF long] 1(3)
        by (simp add: Write_loop_m_long [of a] Write_loop_m_long [of "a @ b"]
            Write_body_m_length)
    next
      case False
      with long 1(2) have len: "length a = 32"
        by (auto elim!: dvdE)
      let ?g = "Write_body_m h a"
      have g: "?g = (write32_m h a)\<lparr>m_block := a\<rparr>"
        using len 1(3) by (simp add: Write_body_m_def Let_def copy_def copy_count_def)
      have r: "Write_loop_m h a = (?g, [])"
        using len by (simp add: Write_loop_m_long Write_loop_m_short)
      have l: "Write_loop_m h (a @ b) = Write_loop_m (Write_body_m h (a @ b)) b"
        using len by (simp add: Write_loop_m_long)
      show ?thesis
      proof (cases "length b < 32")
        case True
        then have "Write_body_m h (a @ b) = ?g"
          using len 1(3)
          by (simp add: Write_body_m_def Let_def write32_m_append copy_def copy_count_def)
        then show ?thesis
          by (simp add: l r)
      next
        case False
        then have "Write_body_m h (a @ b) = write32_m h a"
          using len by (simp add: Write_body_m_def Let_def write32_m_append)
        moreover have "Write_loop_m ((write32_m h a)\<lparr>m_block := a\<rparr>) b =
            Write_loop_m (write32_m h a) b"
          using False len 1(3) by (intro Write_loop_m_any_block) simp_all
        ultimately show ?thesis
          by (simp add: l r g)
      qed
    qed
  next
    case False
    with 1(2) have "a = []"
      by (auto dest: dvd_imp_le)
    then show ?thesis
      by (simp add: Write_loop_m_short)
  qed
qed

lemma Write_m_pending_0:
  "m_n h = 0 \<Longrightarrow>
   Write_m h buf =
     (fst (Write_loop_m (h\<lparr>m_total := m_total h + of_nat (length buf)\<rparr>) buf))
       \<lparr>m_block :=
          copy (m_block (fst (Write_loop_m (h\<lparr>m_total := m_total h + of_nat (length buf)\<rparr>) buf))) 0
            (snd (Write_loop_m (h\<lparr>m_total := m_total h + of_nat (length buf)\<rparr>) buf)),
        m_n :=
          copy_count (m_block (fst (Write_loop_m (h\<lparr>m_total := m_total h + of_nat (length buf)\<rparr>) buf))) 0
            (snd (Write_loop_m (h\<lparr>m_total := m_total h + of_nat (length buf)\<rparr>) buf))\<rparr>"
  by (simp add: Write_m_def Write_fill_m_def case_prod_beta Let_def)

lemma Write_loop_m_aligned_rest:
  assumes "32 dvd length a"
  shows "snd (Write_loop_m h a) = []"
  using assms
proof (induction h a rule: Write_loop_m.induct)
  case (1 h a)
  show ?case
  proof (cases "32 \<le> length a")
    case True
    then have "32 dvd length (drop 32 a)"
      using 1(2) by (simp add: dvd_diff_nat)
    with 1(1) [OF True] True show ?thesis
      by (simp add: Write_loop_m_long)
  next
    case False
    with 1(2) have "a = []"
      by (auto dest: dvd_imp_le)
    then show ?thesis
      by (simp add: Write_loop_m_short)
  qed
qed

lemma Write_m_aligned:
  assumes n: "m_n h = 0" and a: "32 dvd length a"
  shows "Write_m h a = (fst (Write_loop_m h a))\<lparr>m_total := m_total h + of_nat (length a)\<rparr>"
proof -
  let ?g = "fst (Write_loop_m h a)"
  have "m_n ?g = 0"
    using n by (simp add: Write_loop_m_n)
  then have "?g\<lparr>m_total := x, m_block := m_block ?g, m_n := 0\<rparr> = ?g\<lparr>m_total := x\<rparr>" for x
    by (cases ?g) simp
  then show ?thesis
    using n by (simp add: Write_m_pending_0 Write_loop_m_total_update
        Write_loop_m_aligned_rest [OF a] copy_def copy_count_def)
qed

lemma Write_m_Write_m_aligned:
  assumes n: "m_n h = 0" and a: "32 dvd length a" and l: "length (m_block h) = 32"
  shows "Write_m (Write_m h a) b = Write_m h (a @ b)"
proof -
  let ?g = "fst (Write_loop_m h a)"
  have g: "m_n ?g = 0"
    using n by (simp add: Write_loop_m_n)
  have "Write_m (Write_m h a) b =
      Write_m (?g\<lparr>m_total := m_total h + of_nat (length a)\<rparr>) b"
    by (simp add: Write_m_aligned [OF n a])
  also have "\<dots> = Write_m h (a @ b)"
    using n g
    by (simp add: Write_m_pending_0 Write_loop_m_total_update Write_loop_m_append [OF a l]
        add.assoc)
  finally show ?thesis .
qed

lemma writes_m_aligned:
  assumes "wf_m h" and "m_n h = 0" and "\<forall>c \<in> set chunks. 32 dvd length c"
  shows "foldl Write_m h (chunks @ [final]) = Write_m h (concat chunks @ final)"
  using assms
proof (induction chunks arbitrary: h)
  case Nil
  then show ?case by simp
next
  case (Cons c chunks)
  have "m_n (Write_m h c) = 0"
    using Cons.prems by (simp add: Write_m_aligned Write_loop_m_n)
  moreover have "wf_m (Write_m h c)"
    using Cons.prems by (simp add: wf_m_Write_m)
  ultimately have
    "foldl Write_m (Write_m h c) (chunks @ [final]) = Write_m (Write_m h c) (concat chunks @ final)"
    using Cons by simp
  with Cons.prems show ?case
    by (simp add: Write_m_Write_m_aligned wf_m_def)
qed

subsection \<open>The failing inputs\<close>

lemmas eval_copy = copy_def copy_count_def zero32_list

lemma rounds_3:
  "Sum_rounds 0 (0, 0, 0, 0) (3, 0, 0, 0) 3 =
     (2827884674711884591, 2235809273939206855, 3486667368201671467, 13791207214602143220)"
  by (simp add: Sum_rounds_six Sum_round_def RotateLeft64_def
      cong: let_weak_cong prod.case_cong_weak)

lemma rounds_197121:
  "Sum_rounds 0 (0, 0, 0, 0) (197121, 0, 0, 0) 3 =
     (4314463373615943428, 4200679988118078548, 15473655206431081139, 11712061582229006002)"
  by (simp add: Sum_rounds_six Sum_round_def RotateLeft64_def
      cong: let_weak_cong prod.case_cong_weak)

lemma rounds_515:
  "Sum_rounds 0 (0, 0, 0, 0) (515, 0, 0, 0) 3 =
     (2598019030985950285, 4440431791739684003, 15601507168178239617, 13320459889642761742)"
  by (simp add: Sum_rounds_six Sum_round_def RotateLeft64_def
      cong: let_weak_cong prod.case_cong_weak)

lemma rounds_seed1:
  "Sum_rounds 0 (0, 0, 0, 1) (0, 0, 0, 0) 0 =
     (11779348935705069592, 8465301996518166, 8376882500986364171, 17239334220269624579)"
  by (simp add: Sum_rounds_six Sum_round_def RotateLeft64_def
      cong: let_weak_cong prod.case_cong_weak)

lemma rounds_zero: "Sum_rounds 0 (0, 0, 0, 0) (0, 0, 0, 0) 0 = (0, 0, 0, 0)"
  by (simp add: Sum_rounds_six Sum_round_def RotateLeft64_def
      cong: let_weak_cong prod.case_cong_weak)

lemma Write_1:
  "Write (New 0) [1] =
     \<lparr>h_b = (0, 0, 0, 0), h_s = (0, 0, 0, 0), h_seed = 0, h_total = 1,
      h_tmp = [1,0,0,0,0,0,0,0, 0,0,0,0,0,0,0,0, 0,0,0,0,0,0,0,0, 0,0,0,0,0,0,0,0], h_n = 1\<rparr>"
  by (simp add: Write_def Write_fill_def Write_loop_short New_def eval_copy)

lemma Write_1_2:
  "Write (Write (New 0) [1]) [2] =
     \<lparr>h_b = (0, 0, 0, 0), h_s = (0, 0, 0, 0), h_seed = 0, h_total = 2,
      h_tmp = [1,2,0,0,0,0,0,0, 0,0,0,0,0,0,0,0, 0,0,0,0,0,0,0,0, 0,0,0,0,0,0,0,0], h_n = 0\<rparr>"
  by (simp add: Write_1) (simp add: Write_def Write_fill_def Write_loop_short eval_copy)

lemma Write_1_2_3:
  "Write (Write (Write (New 0) [1]) [2]) [3] =
     \<lparr>h_b = (0, 0, 0, 0), h_s = (0, 0, 0, 0), h_seed = 0, h_total = 3,
      h_tmp = [3,2,0,0,0,0,0,0, 0,0,0,0,0,0,0,0, 0,0,0,0,0,0,0,0, 0,0,0,0,0,0,0,0], h_n = 1\<rparr>"
  by (simp add: Write_1_2) (simp add: Write_def Write_fill_def Write_loop_short eval_copy)

lemma Write_123:
  "Write (New 0) [1, 2, 3] =
     \<lparr>h_b = (0, 0, 0, 0), h_s = (0, 0, 0, 0), h_seed = 0, h_total = 3,
      h_tmp = [1,2,3,0,0,0,0,0, 0,0,0,0,0,0,0,0, 0,0,0,0,0,0,0,0, 0,0,0,0,0,0,0,0], h_n = 3\<rparr>"
  by (simp add: Write_def Write_fill_def Write_loop_short New_def eval_copy)

lemma Write_m_1:
  "Write_m (New_m 0) [1] =
     \<lparr>m_block = [1,0,0,0,0,0,0,0, 0,0,0,0,0,0,0,0, 0,0,0,0,0,0,0,0, 0,0,0,0,0,0,0,0],
      m_s = (0, 0, 0, 0), m_seed = 0, m_total = 1, m_n = 1\<rparr>"
  by (simp add: Write_m_def Write_fill_m_def Write_loop_m_short New_m_def eval_copy)

lemma Write_m_1_2:
  "Write_m (Write_m (New_m 0) [1]) [2] =
     \<lparr>m_block = [1,2,0,0,0,0,0,0, 0,0,0,0,0,0,0,0, 0,0,0,0,0,0,0,0, 0,0,0,0,0,0,0,0],
      m_s = (0, 0, 0, 0), m_seed = 0, m_total = 2, m_n = 0\<rparr>"
  by (simp add: Write_m_1) (simp add: Write_m_def Write_fill_m_def Write_loop_m_short eval_copy)

lemma Write_m_1_2_3:
  "Write_m (Write_m (Write_m (New_m 0) [1]) [2]) [3] =
     \<lparr>m_block = [3,2,0,0,0,0,0,0, 0,0,0,0,0,0,0,0, 0,0,0,0,0,0,0,0, 0,0,0,0,0,0,0,0],
      m_s = (0, 0, 0, 0), m_seed = 0, m_total = 3, m_n = 1\<rparr>"
  by (simp add: Write_m_1_2) (simp add: Write_m_def Write_fill_m_def Write_loop_m_short eval_copy)

lemma Write_m_123:
  "Write_m (New_m 0) [1, 2, 3] =
     \<lparr>m_block = [1,2,3,0,0,0,0,0, 0,0,0,0,0,0,0,0, 0,0,0,0,0,0,0,0, 0,0,0,0,0,0,0,0],
      m_s = (0, 0, 0, 0), m_seed = 0, m_total = 3, m_n = 3\<rparr>"
  by (simp add: Write_m_def Write_fill_m_def Write_loop_m_short New_m_def eval_copy)

lemma encode4_inject: "encode4 zero32 v = encode4 zero32 w \<longleftrightarrow> v = w"
  by (metis decode4_encode4)

lemma virtual_3:
  "decode4 (copy (encode4 zero32 (0, 0, 0, 0)) 0 [3]) = (3, 0, 0, 0)"
  by (simp add: encode4_32 le_bytes_def copy_def copy_count_def decode4_def Uint64_def)

lemma virtual_123:
  "decode4 (copy (encode4 zero32 (0, 0, 0, 0)) 0 [1, 2, 3]) = (197121, 0, 0, 0)"
  by (simp add: encode4_32 le_bytes_def copy_def copy_count_def decode4_def Uint64_def)

lemma block_32: 
  "decode4 [3,2,0,0,0,0,0,0, 0,0,0,0,0,0,0,0, 0,0,0,0,0,0,0,0, 0,0,0,0,0,0,0,0] = (515, 0, 0, 0)"
  by (simp add: decode4_def Uint64_def)

lemma block_123: 
  "decode4 [1,2,3,0,0,0,0,0, 0,0,0,0,0,0,0,0, 0,0,0,0,0,0,0,0, 0,0,0,0,0,0,0,0] = (197121, 0, 0, 0)"
  by (simp add: decode4_def Uint64_def)

text \<open>
  Claim C1 does not hold for the source.  With seed 0, writing the bytes 1, 2, 3 one at a
  time gives another digest than writing them in one call, in both revisions.  A
  \<open>Write\<close> that finds pending bytes and does not complete the block ends with
  \<open>h.n = copy(h.tmp[:], buf[:])\<close> on an empty \<open>buf\<close>, so the pending length becomes 0
  (\<open>Write_partial_fill\<close>, \<open>Write_m_partial_fill\<close>) and the next \<open>Write\<close> overwrites the
  pending bytes.  Chunks whose lengths are multiples of 32, followed by any last chunk,
  do give the digest of the whole input (\<open>writes_aligned\<close>, \<open>writes_m_aligned\<close>).
\<close>

theorem chunked_writes_differ:
  "snd (Sum (Write (Write (Write (New 0) [1]) [2]) [3]) []) \<noteq> snd (Sum (Write (New 0) [1, 2, 3]) []) \<and>
   snd (Sum_m (Write_m (Write_m (Write_m (New_m 0) [1]) [2]) [3]) []) \<noteq>
     snd (Sum_m (Write_m (New_m 0) [1, 2, 3]) [])"
proof (intro conjI notI)
  assume "snd (Sum (Write (Write (Write (New 0) [1]) [2]) [3]) []) = snd (Sum (Write (New 0) [1, 2, 3]) [])"
  then have "Sum_rounds 0 (0, 0, 0, 0) (3, 0, 0, 0) 3 = Sum_rounds 0 (0, 0, 0, 0) (197121, 0, 0, 0) 3"
    by (simp add: Sum_out Write_1_2_3 Write_123 virtual_3 virtual_123 encode4_inject)
  then show False
    by (simp add: rounds_3 rounds_197121)
next
  assume "snd (Sum_m (Write_m (Write_m (Write_m (New_m 0) [1]) [2]) [3]) []) =
     snd (Sum_m (Write_m (New_m 0) [1, 2, 3]) [])"
  then have "Sum_rounds 0 (0, 0, 0, 0) (515, 0, 0, 0) 3 = Sum_rounds 0 (0, 0, 0, 0) (197121, 0, 0, 0) 3"
    by (simp add: Sum_m_out Write_m_1_2_3 Write_m_123 block_32 block_123 encode4_inject)
  then show False
    by (simp add: rounds_515 rounds_197121)
qed

lemma Reset_m_eq: "Reset_m h = New_m 0"
  by (simp add: Reset_m_def New_m_def)

lemma Write_m_empty_New: "Write_m (New_m seed) [] = New_m seed"
  by (simp add: Write_m_def Write_fill_m_def Write_loop_m_short New_m_def eval_copy)

text \<open>
  Claim C2 does not hold for \<open>Reset\<close> of src/README.md: it zeroes the whole struct, the
  seed included, before it reads the seed.  An engine built with seed 1 is, after
  \<open>Reset\<close>, the engine \<open>New 0\<close>, and its digest of the empty input differs from that of
  a fresh engine with seed 1.  \<open>Reset\<close> of src/pengyhash.go keeps the seed and does
  what the claim says (\<open>Reset_equivalence\<close>).
\<close>

theorem Reset_m_forgets_seed:
  "Reset_m (New_m 1) = New_m 0 \<and> m_seed (Reset_m (New_m 1)) \<noteq> 1 \<and>
   snd (Sum_m (Write_m (Reset_m (New_m 1)) []) []) \<noteq> snd (Sum_m (Write_m (New_m 1) []) [])"
proof (intro conjI notI)
  show "Reset_m (New_m 1) = New_m 0"
    by (rule Reset_m_eq)
  assume "m_seed (Reset_m (New_m 1)) = 1"
  then show False
    by (simp add: Reset_m_eq New_m_def)
next
  have z: "decode4 zero32 = (0, 0, 0, 0)"
    by (simp add: decode4_def Uint64_def zero32_def)
  assume "snd (Sum_m (Write_m (Reset_m (New_m 1)) []) []) = snd (Sum_m (Write_m (New_m 1) []) [])"
  then have "Sum_rounds 0 (0, 0, 0, 0) (0, 0, 0, 0) 0 = Sum_rounds 0 (0, 0, 0, 1) (0, 0, 0, 0) 0"
    by (simp add: Reset_m_eq Write_m_empty_New Sum_m_out encode4_inject)
      (simp add: New_m_def z)
  then show False
    by (simp add: rounds_zero rounds_seed1)
qed

end
